theory Spec2Isabelle
  imports Main "HOL-Library.Word"
begin

unbundle bit_operations_syntax

section \<open>Data model\<close>

text \<open>
  A C \<open>char\<close> is a byte; the bit operations of \<open>kxo_pkg.h\<close> are carried out on \<open>int\<close>
  after integer promotion, so their results are 32-bit words. The values of type \<open>int\<close>
  that are only counted, compared and copied (\<open>move\<close>, \<open>len\<close>, \<open>move_count\<close>) are
  integers. A pointer is an address, 0 being \<open>NULL\<close>.
\<close>

type_synonym byte = "8 word"
type_synonym cint = "32 word"
type_synonym addr = nat

text \<open>\<open>struct package\<close> of \<open>kxo_pkg.h\<close>.\<close>

record package =
  val :: byte
  move :: int

text \<open>
  Integer promotion of a \<open>char\<close> (signed, as on the x86 Linux targets of the module;
  lemma \<open>PKG_GET_AI_low7\<close> and \<open>PKG_GET_END_bit\<close> below show that the decoded values do
  not depend on the sign extension) and the conversion back on a store into a \<open>char\<close>.
\<close>

definition int_of_char :: "byte \<Rightarrow> cint" where
  "int_of_char c = scast c"

definition char_of_int :: "cint \<Rightarrow> byte" where
  "char_of_int i = ucast i"

section \<open>Protocol codec (\<open>kxo_pkg.h\<close>)\<close>

text \<open>\<open>#define PKG_PUT_AI(pkg, c) (READ_ONCE(pkg.val) & 0x80) | c\<close>\<close>

definition PKG_PUT_AI :: "package \<Rightarrow> byte \<Rightarrow> cint" where
  "PKG_PUT_AI pkg c = (int_of_char (val pkg) AND 0x80) OR int_of_char c"

text \<open>\<open>#define PKG_SET_END(pkg) (READ_ONCE(pkg.val) & 0x7F) | 0x80\<close>\<close>

definition PKG_SET_END :: "package \<Rightarrow> cint" where
  "PKG_SET_END pkg = (int_of_char (val pkg) AND 0x7F) OR 0x80"

text \<open>\<open>#define PKG_CLR_END(pkg) (READ_ONCE(pkg.val) & 0x7F) | 0x00\<close>\<close>

definition PKG_CLR_END :: "package \<Rightarrow> cint" where
  "PKG_CLR_END pkg = (int_of_char (val pkg) AND 0x7F) OR 0x00"

text \<open>\<open>#define PKG_GET_AI(val) val & 0x7F\<close>\<close>

definition PKG_GET_AI :: "byte \<Rightarrow> cint" where
  "PKG_GET_AI v = int_of_char v AND 0x7F"

text \<open>\<open>#define PKG_GET_END(val) (((val) & 0x80) != 0)\<close>\<close>

definition PKG_GET_END :: "byte \<Rightarrow> bool" where
  "PKG_GET_END v = ((int_of_char v AND 0x80) \<noteq> 0)"

section \<open>Memory, allocator and output\<close>

text \<open>
  What the process prints: \<open>printf\<close> and \<open>perror\<close> with their message, and a repaint of the
  board (the escape sequence and \<open>draw_board\<close>'s rendering of the table it is given; the
  rendering itself depends on constants of \<open>game.h\<close> and is not part of this model).
\<close>

datatype out_event = Printf string | Perror string | Display "byte list"

text \<open>
  The heap is split by field. \<open>lh_prev\<close> and \<open>lh_next\<close> are the two pointers of the
  \<open>struct list_head\<close> at an address; for an \<open>element_t\<close> the address of the element stands
  for the address of its embedded \<open>list\<close> member too (\<open>container_of\<close> is the identity on
  addresses), and \<open>e_value\<close>, \<open>e_len\<close>, \<open>e_ai\<close> are its other fields. \<open>ints\<close> is the
  content of an \<open>int\<close> array. \<open>alive\<close> lists the blocks that \<open>malloc\<close> has returned and
  \<open>free\<close> has not yet released. \<open>allocs\<close> holds the outcome of each \<open>malloc\<close> call to come
  (\<open>True\<close>: it succeeds; past the end every call fails), \<open>out\<close> what has been printed.
\<close>

record world =
  alive :: "addr list"
  lh_prev :: "addr \<Rightarrow> addr"
  lh_next :: "addr \<Rightarrow> addr"
  e_value :: "addr \<Rightarrow> addr"
  e_len :: "addr \<Rightarrow> int"
  e_ai :: "addr \<Rightarrow> byte"
  ints :: "addr \<Rightarrow> int list"
  allocs :: "bool list"
  out :: "out_event list"

definition printf :: "string \<Rightarrow> world \<Rightarrow> world" where
  "printf msg w = w\<lparr>out := out w @ [Printf msg]\<rparr>"

definition perror :: "string \<Rightarrow> world \<Rightarrow> world" where
  "perror msg w = w\<lparr>out := out w @ [Perror msg]\<rparr>"

text \<open>A block address that is neither \<open>NULL\<close> nor in use.\<close>

definition fresh :: "addr list \<Rightarrow> addr" where
  "fresh as = Suc (fold max as 0)"

text \<open>\<open>malloc\<close>: \<open>NULL\<close> when the allocator refuses, a block not in use otherwise.\<close>

definition malloc :: "world \<Rightarrow> addr \<times> world" where
  "malloc w =
     (case allocs w of
        [] \<Rightarrow> (0, w)
      | ok # rest \<Rightarrow>
          if ok then (fresh (alive w), w\<lparr>alive := fresh (alive w) # alive w, allocs := rest\<rparr>)
          else (0, w\<lparr>allocs := rest\<rparr>))"

definition free :: "addr \<Rightarrow> world \<Rightarrow> world" where
  "free p w = w\<lparr>alive := remove1 p (alive w)\<rparr>"

section \<open>Circular doubly-linked list (\<open>list.h\<close>)\<close>

definition INIT_LIST_HEAD :: "addr \<Rightarrow> world \<Rightarrow> world" where
  "INIT_LIST_HEAD head w =
     (let w1 = w\<lparr>lh_next := (lh_next w)(head := head)\<rparr>
      in w1\<lparr>lh_prev := (lh_prev w1)(head := head)\<rparr>)"

definition list_add :: "addr \<Rightarrow> addr \<Rightarrow> world \<Rightarrow> world" where
  "list_add node head w =
     (let nxt = lh_next w head;
          w1 = w\<lparr>lh_prev := (lh_prev w)(nxt := node)\<rparr>;
          w2 = w1\<lparr>lh_next := (lh_next w1)(node := nxt)\<rparr>;
          w3 = w2\<lparr>lh_prev := (lh_prev w2)(node := head)\<rparr>
      in w3\<lparr>lh_next := (lh_next w3)(head := node)\<rparr>)"

text \<open>
  \<open>list_for_each_entry_safe(entry, safe, head, list)\<close> with a body that leaves the links
  alone: the entries visited, in order. \<open>entry\<close> starts at \<open>head->next\<close>, \<open>safe\<close> at
  \<open>entry->list.next\<close>; an iteration ends with \<open>entry = safe, safe = safe->list.next\<close>; the
  loop stops when \<open>&entry->list = head\<close>. On a list that never comes back to \<open>head\<close> the
  loop does not end and the result is \<open>None\<close>.
\<close>

partial_function (option) for_each_entry_safe :: "world \<Rightarrow> addr \<Rightarrow> addr \<Rightarrow> addr \<Rightarrow> addr list option" where
  "for_each_entry_safe w head entry safe =
     (if entry = head then Some []
      else Option.bind (for_each_entry_safe w head safe (lh_next w safe)) (\<lambda>rest. Some (entry # rest)))"

definition q_entries :: "world \<Rightarrow> addr \<Rightarrow> addr list option" where
  "q_entries w head =
     for_each_entry_safe w head (lh_next w head) (lh_next w (lh_next w head))"

section \<open>Move-history queue (\<open>record_queue.c\<close>)\<close>

text \<open>Undefined behaviour of the C program that the model makes explicit.\<close>

datatype fault = OutOfBounds

definition q_new :: "world \<Rightarrow> addr \<times> world" where
  "q_new w =
     (case malloc w of (ret, w1) \<Rightarrow>
        if ret \<noteq> 0 then (ret, INIT_LIST_HEAD ret w1) else (ret, w1))"

text \<open>
  \<open>q_insert_head(head, move, len, ai)\<close>. \<open>move\<close> is the content of the caller's buffer;
  \<open>memcpy\<close> reads its first \<open>len\<close> entries, which is out of bounds when there are fewer
  (or \<open>len\<close> is negative and the size wraps around).
\<close>

definition q_insert_head :: "addr \<Rightarrow> int list \<Rightarrow> int \<Rightarrow> byte \<Rightarrow> world \<Rightarrow> fault + (bool \<times> world)" where
  "q_insert_head head mv len ai w =
     (if head = 0 then Inr (False, printf ''Queue head is NULL\<newline>'' w)
      else case malloc w of (node, w1) \<Rightarrow>
        if node = 0 then Inr (False, printf ''Failed to allocate memory for move\<newline>'' w1)
        else case malloc w1 of (v, w2) \<Rightarrow>
          let w3 = w2\<lparr>e_value := (e_value w2)(node := v)\<rparr> in
          if v = 0 then Inr (False, printf ''Failed to allocate memory for move\<newline>'' (free node w3))
          else
            let w4 = w3\<lparr>e_len := (e_len w3)(node := len)\<rparr>;
                w5 = w4\<lparr>e_ai := (e_ai w4)(node := ai)\<rparr>
            in if len < 0 \<or> int (length mv) < len then Inl OutOfBounds
               else Inr (True, list_add node head (w5\<lparr>ints := (ints w5)(v := take (nat len) mv)\<rparr>)))"

text \<open>
  A completed game as the final report of \<open>main\<close> reads it from an entry:
  \<open>entry->value[0 .. entry->len)\<close> and \<open>entry->ai\<close>.
\<close>

record game_record =
  moves :: "int list"
  winner :: byte

definition entry_record :: "world \<Rightarrow> addr \<Rightarrow> game_record" where
  "entry_record w p = \<lparr>moves = take (nat (e_len w p)) (ints w (e_value w p)), winner = e_ai w p\<rparr>"

definition q_records :: "world \<Rightarrow> addr \<Rightarrow> game_record list option" where
  "q_records w head = map_option (map (entry_record w)) (q_entries w head)"

text \<open>
  The representation invariant of a queue: \<open>head\<close> and the entries \<open>ps\<close> (front to
  back) are distinct live blocks, linked into a ring by \<open>next\<close> with \<open>prev\<close> its inverse,
  and every entry's move array is a live block.
\<close>

fun dll :: "world \<Rightarrow> addr \<Rightarrow> addr list \<Rightarrow> addr \<Rightarrow> bool" where
  "dll w p [] h = (lh_next w p = h \<and> lh_prev w h = p)"
| "dll w p (a # as) h = (lh_next w p = a \<and> lh_prev w a = p \<and> dll w a as h)"

definition is_queue :: "world \<Rightarrow> addr \<Rightarrow> addr list \<Rightarrow> bool" where
  "is_queue w head ps =
     (head \<noteq> 0 \<and> dll w head ps head \<and> distinct (head # ps)
      \<and> set (head # ps) \<subseteq> set (alive w)
      \<and> (\<forall>p \<in> set ps. e_value w p \<in> set (alive w)))"

section \<open>Session state and event loop (\<open>xo-user.c\<close>)\<close>

text \<open>
  The globals of \<open>xo-user.c\<close> and the statics of \<open>main\<close>. \<open>move_record\<close> and \<open>table\<close>
  are arrays of \<open>N_GRIDS\<close> entries; \<open>N_GRIDS\<close> is a constant of \<open>game.h\<close> and a
  parameter \<open>n_grids\<close> here. \<open>attr_file\<close> is the attribute file
  \<open>/sys/class/kxo/kxo/kxo_state\<close>: \<open>None\<close> when \<open>open\<close> fails, its content otherwise.
\<close>

record state =
  world :: world
  head :: addr
  move_record :: "int list"
  move_count :: int
  table :: "byte list"
  pkg_obj :: package
  read_attr :: bool
  end_attr :: bool
  attr_file :: "byte list option"

text \<open>
  Modelled from the spec: the attribute file is served by the kernel module, whose source is
  not among the files modelled here. It is a fixed 6-byte text record (byte 0 the display
  flag, byte 4 the terminate flag). \<open>read(attr_fd, buf, n)\<close> copies the first \<open>n\<close> bytes of
  the record over the start of \<open>buf\<close>; \<open>write(attr_fd, buf, n)\<close> replaces the record with
  the first \<open>n\<close> bytes of \<open>buf\<close>; both do nothing when the file could not be opened.
\<close>

definition attr_read :: "nat \<Rightarrow> byte list option \<Rightarrow> byte list \<Rightarrow> byte list" where
  "attr_read n f buf =
     (case f of None \<Rightarrow> buf | Some c \<Rightarrow> take n c @ drop (length (take n c)) buf)"

definition attr_write :: "nat \<Rightarrow> byte list \<Rightarrow> byte list option \<Rightarrow> byte list option" where
  "attr_write n buf f = (case f of None \<Rightarrow> None | Some c \<Rightarrow> Some (take n buf))"

definition say :: "string \<Rightarrow> state \<Rightarrow> state" where
  "say msg s = s\<lparr>world := printf msg (world s)\<rparr>"

text \<open>
  \<open>listen_keyboard_handler\<close>. \<open>input\<close> is the byte that \<open>read(STDIN_FILENO, &input, 1)\<close>
  delivers, if any; \<open>buf0\<close> is the indeterminate initial content of the local
  \<open>char buf[20]\<close>. Code 16 is Ctrl-P, code 17 is Ctrl-Q.
\<close>

definition listen_keyboard_handler :: "byte option \<Rightarrow> byte list \<Rightarrow> state \<Rightarrow> state" where
  "listen_keyboard_handler input buf0 s =
     (case input of
        None \<Rightarrow> s
      | Some c \<Rightarrow>
          if c = 16 then
            let buf = attr_read 6 (attr_file s) buf0;
                buf1 = buf[0 := (if int_of_char (buf ! 0) - 0x30 \<noteq> 0 then 0x30 else 0x31)];
                s1 = s\<lparr>read_attr := (read_attr s \<noteq> True)\<rparr>;
                s2 = s1\<lparr>attr_file := attr_write 6 buf1 (attr_file s1)\<rparr>
            in if \<not> read_attr s2
               then say ''Stopping to display the chess board...\<newline>'' s2 else s2
          else if c = 17 then
            let buf = attr_read 6 (attr_file s) buf0;
                buf1 = buf[4 := 0x31];
                s1 = s\<lparr>read_attr := False\<rparr>;
                s2 = s1\<lparr>end_attr := True\<rparr>;
                s3 = s2\<lparr>attr_file := attr_write 6 buf1 (attr_file s2)\<rparr>
            in say ''Stopping the kernel space tic-tac-toe game...\<newline>'' s3
          else s)"

text \<open>\<open>record_move\<close>: \<open>move_record[move_count++] = move\<close>.\<close>

definition record_move :: "int \<Rightarrow> state \<Rightarrow> fault + state" where
  "record_move mv s =
     (if 0 \<le> move_count s \<and> move_count s < int (length (move_record s))
      then Inr (s\<lparr>move_record := (move_record s)[nat (move_count s) := mv],
                 move_count := move_count s + 1\<rparr>)
      else Inl OutOfBounds)"

definition record_to_queue :: "byte \<Rightarrow> state \<Rightarrow> fault + state" where
  "record_to_queue wnr s =
     (if move_count s = 0 then Inr s
      else case q_insert_head (head s) (move_record s) (move_count s) wnr (world s) of
             Inl f \<Rightarrow> Inl f
           | Inr (ok, w) \<Rightarrow>
               if \<not> ok then Inr (s\<lparr>world := perror ''Failed to insert move into queue'' w\<rparr>)
               else Inr (s\<lparr>world := w, move_count := 0\<rparr>))"

text \<open>\<open>table[i] = c\<close> on the array \<open>table\<close>.\<close>

definition table_store :: "int \<Rightarrow> byte \<Rightarrow> state \<Rightarrow> fault + state" where
  "table_store i c s =
     (if 0 \<le> i \<and> i < int (length (table s))
      then Inr (s\<lparr>table := (table s)[nat i := c]\<rparr>)
      else Inl OutOfBounds)"

text \<open>The repaint: the screen is cleared and the rendering of \<open>table\<close> printed.\<close>

definition display :: "state \<Rightarrow> state" where
  "display s = s\<lparr>world := (world s)\<lparr>out := out (world s) @ [Display (table s)]\<rparr>\<rparr>"

text \<open>
  The branch of the loop of \<open>main\<close> taken when the device is ready. \<open>rd\<close> is what
  \<open>read(device_fd, &pkg_obj, sizeof(pkg_obj))\<close> delivers: a record, or nothing, and then
  \<open>pkg_obj\<close> keeps its content.
\<close>

definition device_ready :: "nat \<Rightarrow> package option \<Rightarrow> state \<Rightarrow> fault + state" where
  "device_ready n_grids rd s =
     (let s0 = (case rd of None \<Rightarrow> s | Some p \<Rightarrow> s\<lparr>pkg_obj := p\<rparr>);
          pkg = pkg_obj s0
      in if move pkg = - 1 \<and> \<not> PKG_GET_END (val pkg) then Inr s0
         else
           case (if move pkg \<noteq> - 1
                 then (case table_store (move pkg) (char_of_int (PKG_GET_AI (val pkg))) s0 of
                         Inl f \<Rightarrow> Inl f
                       | Inr s1 \<Rightarrow> record_move (move pkg) s1)
                 else Inr s0) of
             Inl f \<Rightarrow> Inl f
           | Inr s2 \<Rightarrow>
               let s3 = (if read_attr s2 then display s2 else s2)
               in if PKG_GET_END (val pkg)
                  then (case record_to_queue (char_of_int (PKG_GET_AI (val pkg))) s3 of
                          Inl f \<Rightarrow> Inl f
                        | Inr s4 \<Rightarrow> Inr (s4\<lparr>table := replicate n_grids 0x20\<rparr>))
                  else Inr s3)"

text \<open>
  One return of \<open>select\<close>: an error, the keyboard ready (with the byte read and the stack
  garbage of the handler's buffer), or the device alone ready (with the record read).
\<close>

datatype event = SelectError | KeyReady "byte option" "byte list" | DevReady "package option"

text \<open>
  How a run of the loop over the events at hand ends: the loop was left because
  \<open>end_attr\<close> is set; or it waits in \<open>select\<close> for more; or the process called \<open>exit(1)\<close>;
  or the behaviour is undefined.
\<close>

datatype outcome = Exited state | Blocked state | Aborted state | Undefined fault

fun main_loop :: "nat \<Rightarrow> event list \<Rightarrow> state \<Rightarrow> outcome" where
  "main_loop n_grids [] s = (if end_attr s then Exited s else Blocked s)"
| "main_loop n_grids (e # es) s =
     (if end_attr s then Exited s
      else case e of
             SelectError \<Rightarrow> Aborted (say ''Error with select system call\<newline>'' s)
           | KeyReady input buf0 \<Rightarrow> main_loop n_grids es (listen_keyboard_handler input buf0 s)
           | DevReady rd \<Rightarrow>
               (case device_ready n_grids rd s of
                  Inl f \<Rightarrow> Undefined f
                | Inr s1 \<Rightarrow> main_loop n_grids es s1))"

text \<open>
  The state in which \<open>main\<close> enters the loop: the queue is created (\<open>None\<close> is
  \<open>exit(1)\<close>), static storage is zero-initialised, \<open>read_attr = true\<close> and
  \<open>end_attr = false\<close>.
\<close>

definition startup :: "nat \<Rightarrow> byte list option \<Rightarrow> world \<Rightarrow> state option" where
  "startup n_grids f w =
     (case q_new w of (h, w1) \<Rightarrow>
        if h = 0 then None
        else Some \<lparr>world = w1, head = h, move_record = replicate n_grids 0, move_count = 0,
                   table = replicate n_grids 0, pkg_obj = \<lparr>val = 0, move = 0\<rparr>,
                   read_attr = True, end_attr = False, attr_file = f\<rparr>)"

text \<open>A process image with nothing allocated and the allocator outcomes \<open>oks\<close>.\<close>

definition boot :: "bool list \<Rightarrow> world" where
  "boot oks = \<lparr>alive = [], lh_prev = (\<lambda>_. 0), lh_next = (\<lambda>_. 0), e_value = (\<lambda>_. 0),
               e_len = (\<lambda>_. 0), e_ai = (\<lambda>_. 0), ints = (\<lambda>_. []), allocs = oks, out = []\<rparr>"

text \<open>
  What a caller can observe of \<open>q_insert_head(head, move, len, ai)\<close> on the queue
  \<open>fst qw\<close> in the world \<open>snd qw\<close>: the value returned, the records of the queue
  afterwards, front to back, and the blocks in use afterwards.
\<close>

definition push_front_obs :: "addr \<times> world \<Rightarrow> int list \<Rightarrow> int \<Rightarrow> byte \<Rightarrow> (bool \<times> game_record list option \<times> addr list) option" where
  "push_front_obs qw mv len ai =
     (case q_insert_head (fst qw) mv len ai (snd qw) of
        Inl f \<Rightarrow> None
      | Inr (ok, w1) \<Rightarrow> Some (ok, q_records w1 (fst qw), alive w1))"

text \<open>
  The move log of the game in progress, \<open>move_record[0 .. move_count)\<close>, and the history
  of completed games as the final report of \<open>main\<close> traverses it.
\<close>

definition move_log :: "state \<Rightarrow> int list" where
  "move_log s = take (nat (move_count s)) (move_record s)"

definition history :: "state \<Rightarrow> game_record list option" where
  "history s = q_records (world s) (head s)"

text \<open>
  A whole session: the process starts with nothing allocated and the allocator outcomes
  \<open>oks\<close>, without an attribute file, enters the loop and is fed the events; the result is
  the state in which the loop is left, waits or aborts.
\<close>

fun final_state :: "outcome \<Rightarrow> state option" where
  "final_state (Exited s) = Some s"
| "final_state (Blocked s) = Some s"
| "final_state (Aborted s) = Some s"
| "final_state (Undefined f) = None"

definition session :: "nat \<Rightarrow> bool list \<Rightarrow> event list \<Rightarrow> state option" where
  "session n_grids oks evs =
     (case startup n_grids None (boot oks) of
        None \<Rightarrow> None
      | Some s \<Rightarrow> final_state (main_loop n_grids evs s))"

text \<open>
  Scenario A of the specification, as the records read from the device: mark \<open>'X'\<close> at
  cell 0, mark \<open>'O'\<close> at cell 4, then the end flag with the mark \<open>'X'\<close> and the sentinel
  move. \<open>printed\<close> is what a session has written to its terminal.
\<close>

definition scenario_A :: "event list" where
  "scenario_A = [DevReady (Some \<lparr>val = 0x58, move = 0\<rparr>),
                 DevReady (Some \<lparr>val = 0x4F, move = 4\<rparr>),
                 DevReady (Some \<lparr>val = 0xD8, move = - 1\<rparr>)]"

definition printed :: "state \<Rightarrow> out_event list" where
  "printed s = out (world s)"

section \<open>Properties of the codec\<close>

lemma n7F: "(0x7F :: 'a::len word) = mask 7"
  by (simp add: mask_eq_exp_minus_1)

lemma and_0x80_iff: "((w :: 'a::len word) AND 0x80 \<noteq> 0) = bit w 7"
  using bit_iff_and_push_bit_not_eq_0 [of w 7] by simp

lemma bit_128_int: "bit (128 :: int) n = (n = 7)"
proof -
  have e: "(128 :: int) = 2 ^ 7" by simp
  have "bit ((2::int) ^ 7) n = (n = 7)"
    by (simp only: bit_exp_iff) auto
  then show ?thesis by (simp only: e)
qed

lemma bit_byte_lt8: "bit (m :: byte) n \<Longrightarrow> n < 8"
  using bit_imp_le_length [of m n] by simp

lemma PKG_GET_AI_low7: "PKG_GET_AI v = ucast (v AND 0x7F)"
  unfolding PKG_GET_AI_def int_of_char_def n7F
  by (auto simp add: bit_eq_iff bit_simps)

lemma char_of_int_GET_AI: "char_of_int (PKG_GET_AI v) = v AND 0x7F"
  unfolding PKG_GET_AI_def int_of_char_def n7F char_of_int_def
  by (auto simp add: bit_eq_iff bit_simps)

lemma PKG_GET_END_bit: "PKG_GET_END v = bit v 7"
  unfolding PKG_GET_END_def int_of_char_def and_0x80_iff
  by (simp add: bit_simps)

lemma le127: "((m :: byte) \<le> 127) = (\<not> bit m 7)"
proof -
  have "(m \<le> 127) = (uint m < 2 ^ 7)"
    by (auto simp add: word_le_def)
  also have "\<dots> = (m AND mask 7 = m)"
    by (simp only: mask_eq_iff)
  also have "\<dots> = (\<forall>n. bit m n \<longrightarrow> n < 7)"
    by (auto simp add: bit_eq_iff bit_simps dest: bit_byte_lt8)
  also have "\<dots> = (\<not> bit m 7)"
  proof
    assume "\<forall>n. bit m n \<longrightarrow> n < 7"
    then show "\<not> bit m 7" by auto
  next
    assume h: "\<not> bit m 7"
    show "\<forall>n. bit m n \<longrightarrow> n < 7"
    proof (intro allI impI)
      fix n assume b: "bit m n"
      then have "n < 8" by (rule bit_byte_lt8)
      with b h show "n < 7" by (cases "n = 7") auto
    qed
  qed
  finally show ?thesis .
qed

lemma put_byte: "char_of_int (PKG_PUT_AI pkg m) = (val pkg AND 0x80) OR m"
  unfolding PKG_PUT_AI_def int_of_char_def char_of_int_def
  by (rule bit_eqI) (auto simp add: bit_simps)

lemma and80_bit: "bit ((v :: byte) AND 0x80) n = (n = 7 \<and> bit v 7)"
  by (auto simp add: bit_simps bit_128_int)

text \<open>
  C5. For every status byte \<open>s\<close> (the \<open>val\<close> of the package) and every mark \<open>m\<close> in
  [0,127], storing \<open>PKG_PUT_AI(pkg, m)\<close> into a status byte and decoding it gives the
  mark back (\<open>PKG_GET_AI\<close>) and the end flag of \<open>s\<close> (\<open>PKG_GET_END\<close>).
\<close>

theorem codec_round_trip:
  assumes "m \<le> 127"
  shows "PKG_GET_AI (char_of_int (PKG_PUT_AI pkg m)) = ucast m
       \<and> PKG_GET_END (char_of_int (PKG_PUT_AI pkg m)) = PKG_GET_END (val pkg)"
proof -
  from assms have h: "\<not> bit m 7" by (simp add: le127)
  have lt: "n < 7" if "bit m n" for n
  proof -
    from that have "n < 8" by (rule bit_byte_lt8)
    with that h show ?thesis by (cases "n = 7") auto
  qed
  have mark: "PKG_GET_AI (char_of_int (PKG_PUT_AI pkg m)) = ucast m"
    unfolding PKG_GET_AI_low7 put_byte n7F
    by (rule bit_eqI) (auto simp add: bit_simps bit_128_int dest: lt)
  have endf: "PKG_GET_END (char_of_int (PKG_PUT_AI pkg m)) = PKG_GET_END (val pkg)"
    unfolding PKG_GET_END_bit put_byte using h
    by (simp add: bit_simps and80_bit)
  from mark endf show ?thesis by simp
qed

theorem codec_round_trip_witness:
  "(0x58 :: byte) \<le> 127
   \<and> PKG_GET_AI (char_of_int (PKG_PUT_AI \<lparr>val = 0x80, move = - 1\<rparr> 0x58)) = 0x58
   \<and> PKG_GET_END (char_of_int (PKG_PUT_AI \<lparr>val = 0x80, move = - 1\<rparr> 0x58))"
proof -
  have h: "(0x58 :: byte) \<le> 127" by simp
  have e: "PKG_GET_END (val \<lparr>val = 0x80, move = - 1\<rparr>)"
    by (simp add: PKG_GET_END_def int_of_char_def)
  show ?thesis
    using h e codec_round_trip [OF h, of "\<lparr>val = 0x80, move = - 1\<rparr>"] by simp
qed

section \<open>The allocator and the list\<close>

lemma fold_max_ge: "b \<le> fold max as (b::nat) \<and> (\<forall>a \<in> set as. a \<le> fold max as b)"
proof (induction as arbitrary: b)
  case Nil
  show ?case by simp
next
  case (Cons x xs)
  from Cons.IH [of "max x b"] show ?case by auto
qed

lemma fresh_notin: "fresh as \<notin> set as"
proof
  assume "fresh as \<in> set as"
  then have "fresh as \<le> fold max as 0" using fold_max_ge [of 0 as] by blast
  then show False by (simp add: fresh_def)
qed

lemma fresh_nonzero: "fresh as \<noteq> 0"
  by (simp add: fresh_def)

lemma malloc_cases:
  assumes "malloc w = (a, w1)"
  shows "(a = 0 \<and> w1 = w\<lparr>allocs := allocs w1\<rparr>)
       \<or> (a \<noteq> 0 \<and> a \<notin> set (alive w) \<and> w1 = w\<lparr>alive := a # alive w, allocs := allocs w1\<rparr>)"
  using assms fresh_notin [of "alive w"] fresh_nonzero [of "alive w"]
  by (auto simp add: malloc_def split: list.splits if_splits)

lemma for_each_dll:
  "dll w p ps h \<Longrightarrow> h \<notin> set ps \<Longrightarrow>
   for_each_entry_safe w h (lh_next w p) (lh_next w (lh_next w p)) = Some ps"
proof (induction ps arbitrary: p)
  case Nil
  then show ?case by (simp add: for_each_entry_safe.simps)
next
  case (Cons a as)
  from Cons.prems have n: "lh_next w p = a" and d: "dll w a as h" and ne: "a \<noteq> h" and ni: "h \<notin> set as"
    by auto
  from Cons.IH [OF d ni] have ih: "for_each_entry_safe w h (lh_next w a) (lh_next w (lh_next w a)) = Some as" .
  show ?case
    by (subst for_each_entry_safe.simps) (simp add: n ne ih)
qed

lemma q_entries_is_queue: "is_queue w h ps \<Longrightarrow> q_entries w h = Some ps"
  unfolding is_queue_def q_entries_def by (intro for_each_dll) auto

lemma dll_cong:
  "\<forall>x \<in> set (p # as). lh_next w1 x = lh_next w x \<Longrightarrow>
   \<forall>x \<in> set (as @ [h]). lh_prev w1 x = lh_prev w x \<Longrightarrow>
   dll w1 p as h = dll w p as h"
proof (induction as arbitrary: p)
  case Nil
  then show ?case by simp
next
  case (Cons a as)
  have "dll w1 a as h = dll w a as h"
    by (rule Cons.IH) (use Cons.prems in auto)
  with Cons.prems show ?case by simp
qed


lemma q_insert_head_True:
  assumes "q_insert_head h mv len ai w = Inr (True, w1)"
  shows "\<exists>node v r. h \<noteq> 0 \<and> node \<noteq> 0 \<and> v \<noteq> 0 \<and> node \<notin> set (alive w) \<and> v \<notin> set (alive w)
           \<and> v \<noteq> node \<and> 0 \<le> len \<and> len \<le> int (length mv)
           \<and> w1 = list_add node h
                    (w\<lparr>alive := v # node # alive w, allocs := r,
                       e_value := (e_value w)(node := v), e_len := (e_len w)(node := len),
                       e_ai := (e_ai w)(node := ai), ints := (ints w)(v := take (nat len) mv)\<rparr>)"
proof -
  from assms have h0: "h \<noteq> 0"
    by (auto simp add: q_insert_head_def split: if_splits)
  obtain node wa where ma: "malloc w = (node, wa)" by (cases "malloc w")
  obtain v wb where mb: "malloc wa = (v, wb)" by (cases "malloc wa")
  from assms h0 ma have n0: "node \<noteq> 0"
    by (auto simp add: q_insert_head_def split: if_splits)
  from assms h0 ma mb n0 have v0: "v \<noteq> 0"
    by (auto simp add: q_insert_head_def Let_def split: if_splits)
  from assms h0 ma mb n0 v0 have len: "0 \<le> len" "len \<le> int (length mv)"
    by (auto simp add: q_insert_head_def Let_def split: if_splits)
  define ra where "ra = allocs wa"
  define rb where "rb = allocs wb"
  from malloc_cases [OF ma] n0 have
    na: "node \<notin> set (alive w)" and wa: "wa = w\<lparr>alive := node # alive w, allocs := ra\<rparr>"
    by (auto simp add: ra_def)
  from malloc_cases [OF mb] v0 have
    vb: "v \<notin> set (alive wa)" and wb: "wb = wa\<lparr>alive := v # alive wa, allocs := rb\<rparr>"
    by (auto simp add: rb_def)
  from vb wa have vn: "v \<noteq> node" "v \<notin> set (alive w)" by auto
  from assms h0 ma mb n0 v0 len
  have "w1 = list_add node h
               (w\<lparr>alive := v # node # alive w, allocs := rb,
                  e_value := (e_value w)(node := v), e_len := (e_len w)(node := len),
                  e_ai := (e_ai w)(node := ai), ints := (ints w)(v := take (nat len) mv)\<rparr>)"
    by (simp add: q_insert_head_def Let_def wa wb)
  with h0 n0 v0 na vn len show ?thesis by blast
qed

lemma list_add_fields:
  "alive (list_add n h w) = alive w" "e_value (list_add n h w) = e_value w"
  "e_len (list_add n h w) = e_len w" "e_ai (list_add n h w) = e_ai w"
  "ints (list_add n h w) = ints w" "allocs (list_add n h w) = allocs w"
  "out (list_add n h w) = out w"
  "lh_next (list_add n h w) = (lh_next w)(n := lh_next w h, h := n)"
  "lh_prev (list_add n h w) = (lh_prev w)(lh_next w h := n, n := h)"
  by (simp_all add: list_add_def Let_def)

lemma dll_list_add:
  assumes d: "dll w h ps h" and dist: "distinct (h # ps)" and nn: "n \<noteq> h" "n \<notin> set ps"
  shows "dll (list_add n h w) h (n # ps) h"
proof (cases ps)
  case Nil
  with d nn show ?thesis by (simp add: list_add_fields)
next
  case (Cons a as)
  from d Cons have hn: "lh_next w h = a" and pa: "lh_prev w a = h" and da: "dll w a as h" by auto
  from dist Cons nn have ne: "a \<noteq> h" "a \<noteq> n" "h \<notin> set as" "n \<notin> set as" "a \<notin> set as" by auto
  have "dll (list_add n h w) a as h = dll w a as h"
    by (rule dll_cong) (use ne nn hn in \<open>auto simp add: list_add_fields\<close>)
  with da have "dll (list_add n h w) a as h" by simp
  with Cons hn ne nn show ?thesis by (simp add: list_add_fields)
qed

lemma q_insert_head_ok:
  assumes q: "is_queue w h ps" and r: "q_insert_head h mv len ai w = Inr (True, w1)"
  shows "\<exists>node. node \<notin> set (alive w) \<and> is_queue w1 h (node # ps)
           \<and> entry_record w1 node = \<lparr>moves = take (nat len) mv, winner = ai\<rparr>
           \<and> (\<forall>p \<in> set ps. entry_record w1 p = entry_record w p)"
proof -
  from q_insert_head_True [OF r] obtain node v r0 where
    f: "node \<noteq> 0" "v \<noteq> 0" "node \<notin> set (alive w)" "v \<notin> set (alive w)" "v \<noteq> node"
       "0 \<le> len" "len \<le> int (length mv)"
    and w1: "w1 = list_add node h
                    (w\<lparr>alive := v # node # alive w, allocs := r0,
                       e_value := (e_value w)(node := v), e_len := (e_len w)(node := len),
                       e_ai := (e_ai w)(node := ai), ints := (ints w)(v := take (nat len) mv)\<rparr>)"
    by blast
  let ?w0 = "w\<lparr>alive := v # node # alive w, allocs := r0,
                e_value := (e_value w)(node := v), e_len := (e_len w)(node := len),
                e_ai := (e_ai w)(node := ai), ints := (ints w)(v := take (nat len) mv)\<rparr>"
  from q have h0: "h \<noteq> 0" and d: "dll w h ps h" and dist: "distinct (h # ps)"
    and sub: "set (h # ps) \<subseteq> set (alive w)"
    and vals: "\<forall>p \<in> set ps. e_value w p \<in> set (alive w)"
    by (auto simp add: is_queue_def)
  from sub f have nn: "node \<noteq> h" "node \<notin> set ps" by auto
  have d0: "dll ?w0 h ps h = dll w h ps h" by (rule dll_cong) auto
  have dl: "dll w1 h (node # ps) h"
    unfolding w1 by (rule dll_list_add) (use d d0 dist nn in auto)
  have al: "alive w1 = v # node # alive w" by (simp add: w1 list_add_fields)
  have ev: "e_value w1 = (e_value w)(node := v)" by (simp add: w1 list_add_fields)
  have iq: "is_queue w1 h (node # ps)"
    unfolding is_queue_def using h0 dl dist nn sub vals al ev by auto
  have rec: "entry_record w1 node = \<lparr>moves = take (nat len) mv, winner = ai\<rparr>"
    by (simp add: entry_record_def w1 list_add_fields)
  have old: "\<forall>p \<in> set ps. entry_record w1 p = entry_record w p"
  proof
    fix p assume p: "p \<in> set ps"
    with nn have pn: "p \<noteq> node" by auto
    from p vals f have "e_value w p \<noteq> v" by auto
    with pn show "entry_record w1 p = entry_record w p"
      by (simp add: entry_record_def w1 list_add_fields)
  qed
  from f iq rec old show ?thesis by blast
qed

lemma q_records_is_queue: "is_queue w h ps \<Longrightarrow> q_records w h = Some (map (entry_record w) ps)"
  by (simp add: q_records_def q_entries_is_queue)

section \<open>Insertion at the head of the queue\<close>

lemma malloc_True: "allocs w = True # r \<Longrightarrow>
   malloc w = (fresh (alive w), w\<lparr>alive := fresh (alive w) # alive w, allocs := r\<rparr>)"
  by (simp add: malloc_def)

lemma q_insert_head_succeeds:
  assumes "h \<noteq> 0" "allocs w = True # True # r" "0 \<le> len" "len \<le> int (length mv)"
  shows "\<exists>w1. q_insert_head h mv len ai w = Inr (True, w1) \<and> allocs w1 = r"
  using assms fresh_nonzero
  by (simp add: q_insert_head_def malloc_True Let_def list_add_fields)

lemma q_new_succeeds:
  assumes "allocs w = True # r"
  shows "\<exists>h w1. q_new w = (h, w1) \<and> is_queue w1 h [] \<and> allocs w1 = r"
  using assms fresh_nonzero
  by (simp add: q_new_def malloc_True INIT_LIST_HEAD_def Let_def is_queue_def)

text \<open>
  C7. For every queue \<open>q\<close> and non-empty move sequences \<open>moves1\<close>, \<open>moves2\<close>: after
  \<open>q_insert_head(q, moves1, 'X')\<close> and then \<open>q_insert_head(q, moves2, 'O')\<close>, both
  returning true, the front-to-back traversal of \<open>q\<close> yields the record of \<open>moves2\<close> and
  \<open>'O'\<close> first, the record of \<open>moves1\<close> and \<open>'X'\<close> second, and then the records that
  were there before.
\<close>

theorem push_front_order:
  assumes q: "is_queue w q ps" 
    and ne: "moves1 \<noteq> []" "moves2 \<noteq> []"
    and p1: "q_insert_head q moves1 (int (length moves1)) 0x58 w = Inr (True, w1)"
    and p2: "q_insert_head q moves2 (int (length moves2)) 0x4F w1 = Inr (True, w2)"
  shows "q_records w2 q =
           Some (\<lparr>moves = moves2, winner = 0x4F\<rparr> # \<lparr>moves = moves1, winner = 0x58\<rparr>
                 # map (entry_record w) ps)"
proof -
  from q_insert_head_ok [OF q p1] obtain n1 where
    q1: "is_queue w1 q (n1 # ps)"
    and r1: "entry_record w1 n1 = \<lparr>moves = take (nat (int (length moves1))) moves1, winner = 0x58\<rparr>"
    and o1: "\<forall>p \<in> set ps. entry_record w1 p = entry_record w p"
    by blast
  from q_insert_head_ok [OF q1 p2] obtain n2 where
    q2: "is_queue w2 q (n2 # n1 # ps)"
    and r2: "entry_record w2 n2 = \<lparr>moves = take (nat (int (length moves2))) moves2, winner = 0x4F\<rparr>"
    and o2: "\<forall>p \<in> set (n1 # ps). entry_record w2 p = entry_record w1 p"
    by blast
  from o1 o2 have old: "map (entry_record w2) ps = map (entry_record w) ps" by simp
  from o2 r1 have r1': "entry_record w2 n1 = \<lparr>moves = moves1, winner = 0x58\<rparr>" by simp
  from q_records_is_queue [OF q2] r2 r1' old show ?thesis by simp
qed

theorem push_front_order_witness:
  "\<exists>h wq w1 w2. 
     q_new (boot [True, True, True, True, True]) = (h, wq) \<and> is_queue wq h []
     \<and> q_insert_head h [0, 4] (int (length [0, 4 :: int])) 0x58 wq = Inr (True, w1)
     \<and> q_insert_head h [1, 2, 3] (int (length [1, 2, 3 :: int])) 0x4F w1 = Inr (True, w2)
     \<and> q_records w2 h = Some [\<lparr>moves = [1, 2, 3], winner = 0x4F\<rparr>, \<lparr>moves = [0, 4], winner = 0x58\<rparr>]"
proof -
  have a: "allocs (boot [True, True, True, True, True]) = True # [True, True, True, True]"
    by (simp add: boot_def)
  from q_new_succeeds [OF a] obtain h wq where
    n: "q_new (boot [True, True, True, True, True]) = (h, wq)" and q: "is_queue wq h []"
    and aq: "allocs wq = True # True # [True, True]"
    by auto
  from q have h0: "h \<noteq> 0" by (simp add: is_queue_def)
  have l1: "0 \<le> int (length [0, 4 :: int])" "int (length [0, 4 :: int]) \<le> int (length [0, 4 :: int])"
    by simp_all
  have l2: "0 \<le> int (length [1, 2, 3 :: int])" "int (length [1, 2, 3 :: int]) \<le> int (length [1, 2, 3 :: int])"
    by simp_all
  from q_insert_head_succeeds [OF h0 aq l1, where ai = "0x58"] obtain w1 where
    p1: "q_insert_head h [0, 4] (int (length [0, 4 :: int])) 0x58 wq = Inr (True, w1)"
    and a1: "allocs w1 = True # True # []"
    by auto
  from q_insert_head_succeeds [OF h0 a1 l2, where ai = "0x4F"] obtain w2 where
    p2: "q_insert_head h [1, 2, 3] (int (length [1, 2, 3 :: int])) 0x4F w1 = Inr (True, w2)"
    by auto
  have "q_records w2 h = Some (\<lparr>moves = [1, 2, 3], winner = 0x4F\<rparr> # \<lparr>moves = [0, 4], winner = 0x58\<rparr>
                 # map (entry_record wq) [])"
    by (rule push_front_order [OF q _ _ p1 p2]) simp_all
  with n q p1 p2 show ?thesis by auto
qed

section \<open>Failure and the degenerate calls of \<open>q_insert_head\<close>\<close>

lemma is_queue_cong:
  assumes "is_queue w h ps" "alive w1 = alive w" "lh_next w1 = lh_next w" "lh_prev w1 = lh_prev w"
    "\<forall>a \<in> set (alive w). e_value w1 a = e_value w a"
  shows "is_queue w1 h ps"
proof -
  have "dll w1 h ps h = dll w h ps h"
    by (rule dll_cong) (use assms in auto)
  with assms show ?thesis by (auto simp add: is_queue_def)
qed

lemma entry_record_cong:
  "e_value w1 p = e_value w p \<Longrightarrow> e_len w1 = e_len w \<Longrightarrow> e_ai w1 = e_ai w \<Longrightarrow> ints w1 = ints w
   \<Longrightarrow> entry_record w1 p = entry_record w p"
  by (simp add: entry_record_def)

lemma q_insert_head_alloc_fails:
  assumes h0: "h \<noteq> 0"
    and fail: "fst (malloc w) = 0 \<or> fst (malloc (snd (malloc w))) = 0"
  shows "\<exists>w1. q_insert_head h mv len ai w = Inr (False, w1)
           \<and> alive w1 = alive w \<and> lh_next w1 = lh_next w \<and> lh_prev w1 = lh_prev w
           \<and> e_len w1 = e_len w \<and> e_ai w1 = e_ai w \<and> ints w1 = ints w
           \<and> (\<forall>a \<in> set (alive w). e_value w1 a = e_value w a)
           \<and> (\<exists>msg. out w1 = out w @ [Printf msg])"
proof -
  obtain node wa where ma: "malloc w = (node, wa)" by (cases "malloc w")
  obtain v wb where mb: "malloc wa = (v, wb)" by (cases "malloc wa")
  show ?thesis
  proof (cases "node = 0")
    case True
    with malloc_cases [OF ma] have wa: "wa = w\<lparr>allocs := allocs wa\<rparr>" by simp
    have "alive wa = alive w" "lh_next wa = lh_next w" "lh_prev wa = lh_prev w"
      "e_len wa = e_len w" "e_ai wa = e_ai w" "ints wa = ints w" "e_value wa = e_value w" "out wa = out w"
      by (subst wa, simp)+
    with True h0 ma show ?thesis
      by (simp add: q_insert_head_def printf_def)
  next
    case False
    with fail ma mb have v0: "v = 0" by simp
    from malloc_cases [OF ma] False have
      na: "node \<notin> set (alive w)" and wa: "wa = w\<lparr>alive := node # alive w, allocs := allocs wa\<rparr>"
      by auto
    from malloc_cases [OF mb] v0 have wb: "wb = wa\<lparr>allocs := allocs wb\<rparr>" by simp
    have f: "alive wb = node # alive w" "lh_next wb = lh_next w" "lh_prev wb = lh_prev w"
      "e_len wb = e_len w" "e_ai wb = e_ai w" "ints wb = ints w" "e_value wb = e_value w" "out wb = out w"
      by (subst wb, subst wa, simp)+
    from False v0 h0 ma mb have
      "q_insert_head h mv len ai w =
         Inr (False, printf ''Failed to allocate memory for move\<newline>''
                       (free node (wb\<lparr>e_value := (e_value wb)(node := 0)\<rparr>)))"
      by (simp add: q_insert_head_def Let_def)
    with f na show ?thesis
      by (auto simp add: printf_def free_def)
  qed
qed


lemma malloc_False: "allocs w = False # r \<Longrightarrow> malloc w = (0, w\<lparr>allocs := r\<rparr>)"
  by (simp add: malloc_def)

text \<open>
  C4. For every queue and every non-empty move sequence: when the allocation of the record
  node fails, or it succeeds and the allocation of the move array fails, \<open>q_insert_head\<close>
  returns false; the queue is as before (same links, same entries, same records); the blocks
  in use are those in use before, so the node allocated in the second case has been freed.
\<close>

theorem push_front_alloc_failure:
  assumes q: "is_queue w h ps" and ne: "mv \<noteq> []"
    and fail: "fst (malloc w) = 0 \<or> fst (malloc (snd (malloc w))) = 0"
  shows "\<exists>w1. q_insert_head h mv (int (length mv)) ai w = Inr (False, w1)
           \<and> is_queue w1 h ps \<and> q_records w1 h = q_records w h
           \<and> lh_next w1 = lh_next w \<and> lh_prev w1 = lh_prev w
           \<and> alive w1 = alive w
           \<and> (fst (malloc w) \<noteq> 0 \<longrightarrow> fst (malloc w) \<notin> set (alive w1))"
proof -
  from q have h0: "h \<noteq> 0" by (simp add: is_queue_def)
  from q_insert_head_alloc_fails [OF h0 fail, of mv "int (length mv)" ai] obtain w1 where
    r: "q_insert_head h mv (int (length mv)) ai w = Inr (False, w1)"
    and f: "alive w1 = alive w" "lh_next w1 = lh_next w" "lh_prev w1 = lh_prev w"
      "e_len w1 = e_len w" "e_ai w1 = e_ai w" "ints w1 = ints w"
    and ev: "\<forall>a \<in> set (alive w). e_value w1 a = e_value w a"
    by blast
  have q1: "is_queue w1 h ps" by (rule is_queue_cong [OF q f(1-3) ev])
  from q have sub: "set ps \<subseteq> set (alive w)" by (auto simp add: is_queue_def)
  have "map (entry_record w1) ps = map (entry_record w) ps"
    using sub ev f by (auto intro!: entry_record_cong)
  with q_records_is_queue [OF q] q_records_is_queue [OF q1]
  have recs: "q_records w1 h = q_records w h" by simp
  have "fst (malloc w) \<noteq> 0 \<longrightarrow> fst (malloc w) \<notin> set (alive w)"
  proof (cases "malloc w")
    case (Pair a wa)
    from malloc_cases [OF Pair] Pair show ?thesis by auto
  qed
  with r q1 recs f show ?thesis by auto
qed

theorem push_front_alloc_failure_witness:
  "\<exists>h wq w1.
     q_new (boot [True, True, False]) = (h, wq) \<and> is_queue wq h [] \<and> [0, 4 :: int] \<noteq> []
     \<and> fst (malloc wq) \<noteq> 0 \<and> fst (malloc (snd (malloc wq))) = 0
     \<and> q_insert_head h [0, 4] (int (length [0, 4 :: int])) 0x58 wq = Inr (False, w1)
     \<and> q_records w1 h = Some [] \<and> alive w1 = alive wq \<and> fst (malloc wq) \<notin> set (alive w1)"
proof -
  have a: "allocs (boot [True, True, False]) = True # [True, False]"
    by (simp add: boot_def)
  from q_new_succeeds [OF a] obtain h wq where
    n: "q_new (boot [True, True, False]) = (h, wq)" and q: "is_queue wq h []"
    and aq: "allocs wq = True # False # []"
    by auto
  have ne: "[0, 4 :: int] \<noteq> []" by simp
  have m1: "fst (malloc wq) \<noteq> 0"
    using fresh_nonzero by (simp add: malloc_True [OF aq])
  have m2: "fst (malloc (snd (malloc wq))) = 0"
    by (simp add: malloc_True [OF aq] malloc_False)
  from m2 have fail: "fst (malloc wq) = 0 \<or> fst (malloc (snd (malloc wq))) = 0" by simp
  from push_front_alloc_failure [OF q ne fail, of "0x58"] obtain w1 where
    r: "q_insert_head h [0, 4] (int (length [0, 4 :: int])) 0x58 wq = Inr (False, w1)"
    and s: "q_records w1 h = q_records wq h" "alive w1 = alive wq"
      "fst (malloc wq) \<noteq> 0 \<longrightarrow> fst (malloc wq) \<notin> set (alive w1)"
    by blast
  from q_records_is_queue [OF q] s have e: "q_records w1 h = Some []" by simp
  from n q ne m1 m2 r e s show ?thesis by blast
qed

text \<open>
  C10. For every move buffer, length and winner mark, \<open>q_insert_head\<close> on the null queue
  returns false; nothing is allocated and no memory is written: the world afterwards is
  the world before with the diagnostic appended to what has been printed.
\<close>

theorem push_front_null_queue:
  "q_insert_head 0 mv len ai w = Inr (False, w\<lparr>out := out w @ [Printf ''Queue head is NULL\<newline>'']\<rparr>)"
  by (simp add: q_insert_head_def printf_def)

lemmas run_defs = q_insert_head_def malloc_def fresh_def q_new_def INIT_LIST_HEAD_def boot_def
  list_add_def printf_def perror_def free_def Let_def

text \<open>
  C3, as stated, fails: on a freshly created queue, with the allocator willing,
  \<open>q_insert_head\<close> with \<open>len = 0\<close> returns true, has allocated two blocks (the node at
  address 2 and a zero-sized array at address 3, besides the head at address 1) and has
  linked a record with no moves into the queue.
\<close>

theorem push_front_zero_moves_counterexample:
  "push_front_obs (q_new (boot [True, True, True])) [] 0 0x58
     = Some (True, Some [\<lparr>moves = [], winner = 0x58\<rparr>], [3, 2, 1])"
  by (simp add: push_front_obs_def run_defs q_records_def q_entries_def
      for_each_entry_safe.simps entry_record_def)

text \<open>
  C3, amended. \<open>q_insert_head\<close> has no guard of its own for \<open>len = 0\<close>: on every queue,
  when its two allocations succeed, it links a record with no moves at the front and returns
  true. The zero-move no-op is the guard of the caller: \<open>record_to_queue\<close> with
  \<open>move_count = 0\<close> returns at once, without calling \<open>q_insert_head\<close>, and the state
  (queue, allocator and output included) is unchanged.
\<close>

theorem zero_moves_guard_in_caller:
  assumes "is_queue w h ps" "allocs w = True # True # r" "move_count s = 0"
  shows "record_to_queue wnr s = Inr s
       \<and> (\<exists>w1. q_insert_head h mv 0 ai w = Inr (True, w1)
                \<and> q_records w1 h = Some (\<lparr>moves = [], winner = ai\<rparr> # map (entry_record w) ps))"
proof -
  from assms(1) have h0: "h \<noteq> 0" by (simp add: is_queue_def)
  from q_insert_head_succeeds [OF h0 assms(2), of 0 mv ai] obtain w1 where
    r: "q_insert_head h mv 0 ai w = Inr (True, w1)" by auto
  from q_insert_head_ok [OF assms(1) r] obtain n where
    q1: "is_queue w1 h (n # ps)"
    and e: "entry_record w1 n = \<lparr>moves = take (nat 0) mv, winner = ai\<rparr>"
    and o: "\<forall>p \<in> set ps. entry_record w1 p = entry_record w p"
    by blast
  from q_records_is_queue [OF q1] e o
  have "q_records w1 h = Some (\<lparr>moves = [], winner = ai\<rparr> # map (entry_record w) ps)" by simp
  with r assms(3) show ?thesis by (simp add: record_to_queue_def)
qed

section \<open>The session\<close>

lemma startup_succeeds:
  assumes "allocs w = True # r"
  shows "\<exists>s. startup n f w = Some s \<and> is_queue (world s) (head s) [] \<and> allocs (world s) = r
           \<and> move_count s = 0 \<and> move_record s = replicate n 0 \<and> table s = replicate n 0
           \<and> read_attr s \<and> \<not> end_attr s \<and> attr_file s = f"
proof -
  from q_new_succeeds [OF assms] obtain h w1 where
    "q_new w = (h, w1)" "is_queue w1 h []" "allocs w1 = r" by blast
  then show ?thesis by (simp add: startup_def is_queue_def)
qed

theorem zero_moves_guard_in_caller_witness:
  "\<exists>s w1. startup 16 None (boot [True, True, True]) = Some s
     \<and> is_queue (world s) (head s) [] \<and> allocs (world s) = True # True # [] \<and> move_count s = 0
     \<and> record_to_queue 0x58 s = Inr s
     \<and> q_insert_head (head s) (move_record s) 0 0x58 (world s) = Inr (True, w1)
     \<and> q_records w1 (head s) = Some [\<lparr>moves = [], winner = 0x58\<rparr>]"
proof -
  have a: "allocs (boot [True, True, True]) = True # [True, True]"
    by (simp add: boot_def)
  from startup_succeeds [OF a, of 16 None] obtain s where
    s: "startup 16 None (boot [True, True, True]) = Some s"
    and q: "is_queue (world s) (head s) []" and al: "allocs (world s) = True # True # []"
    and mc: "move_count s = 0"
    by auto
  from zero_moves_guard_in_caller [OF q al mc, of "0x58" "move_record s" "0x58"]
  obtain w1 where "record_to_queue 0x58 s = Inr s"
    "q_insert_head (head s) (move_record s) 0 0x58 (world s) = Inr (True, w1)"
    "q_records w1 (head s) = Some [\<lparr>moves = [], winner = 0x58\<rparr>]"
    by auto
  with s q al mc show ?thesis by blast
qed

lemmas session_defs = session_def startup_def device_ready_def table_store_def record_move_def
  record_to_queue_def display_def say_def history_def move_log_def printed_def
  PKG_GET_END_def PKG_GET_AI_def int_of_char_def char_of_int_def
  q_records_def q_entries_def for_each_entry_safe.simps entry_record_def

lemma replicate_16: "replicate 16 x = [x, x, x, x, x, x, x, x, x, x, x, x, x, x, x, x]"
  by (simp add: numeral_eq_Suc)

lemma list_update_numeral: "(x # xs)[numeral k := y] = x # xs[pred_numeral k := y]"
  by (simp add: numeral_eq_Suc)

lemma scenario_A_two_moves:
  "map_option table (session 16 [True, True, True] (take 2 scenario_A))
     = Some [0x58, 0, 0, 0, 0x4F, 0, 0, 0, 0, 0, 0, 0, 0, 0, 0, 0]"
  by (simp add: scenario_A_def session_defs run_defs replicate_16 list_update_numeral)

lemma scenario_A_board: "map_option table (session 16 [True, True, True] scenario_A) = Some (replicate 16 0x20)"
  by (simp add: scenario_A_def session_defs run_defs)

lemma scenario_A_history:
  "Option.bind (session 16 [True, True, True] scenario_A) history = Some [\<lparr>moves = [0, 4], winner = 0x58\<rparr>]"
  by (simp add: scenario_A_def session_defs run_defs replicate_16 list_update_numeral)

lemma scenario_A_log:
  "map_option move_log (session 16 [True, True, True] scenario_A) = Some []"
  by (simp add: scenario_A_def session_defs run_defs replicate_16 list_update_numeral)

lemma failed_push_log:
  "map_option move_log (session 16 [True] scenario_A) = Some [0, 4]"
  by (simp add: scenario_A_def session_defs run_defs replicate_16 list_update_numeral)

lemma failed_push_perror:
  "map_option (last \<circ> printed) (session 16 [True] scenario_A) = Some (Perror ''Failed to insert move into queue'')"
  by (simp add: scenario_A_def session_defs run_defs replicate_16 list_update_numeral)

lemma failed_push_next_game:
  "Option.bind (session 16 [True, False, True, True]
      (scenario_A @ [DevReady (Some \<lparr>val = 0x4F, move = 8\<rparr>), DevReady (Some \<lparr>val = 0xCF, move = - 1\<rparr>)])) history
   = Some [\<lparr>moves = [0, 4, 8], winner = 0x4F\<rparr>]"
  by (simp add: scenario_A_def session_defs run_defs replicate_16 list_update_numeral)

lemma is_queue_out [simp]: "is_queue (w\<lparr>out := x\<rparr>) h ps = is_queue w h ps"
proof -
  have "dll (w\<lparr>out := x\<rparr>) h ps h = dll w h ps h"
    by (rule dll_cong) auto
  then show ?thesis by (simp add: is_queue_def)
qed

lemma entry_record_out [simp]: "entry_record (w\<lparr>out := x\<rparr>) = entry_record w"
  by (rule ext) (simp add: entry_record_def)

lemma record_to_queue_ok:
  assumes q: "is_queue (world s) (head s) ps"
    and mc: "0 < move_count s" "move_count s \<le> int (length (move_record s))"
    and al: "allocs (world s) = True # True # r"
  shows "\<exists>w1. record_to_queue wnr s = Inr (s\<lparr>world := w1, move_count := 0\<rparr>)
           \<and> q_records w1 (head s)
               = Some (\<lparr>moves = move_log s, winner = wnr\<rparr> # map (entry_record (world s)) ps)"
proof -
  from q have h0: "head s \<noteq> 0" by (simp add: is_queue_def)
  from mc have l0: "0 \<le> move_count s" by simp
  from q_insert_head_succeeds [OF h0 al l0 mc(2), of wnr] obtain w1 where
    r: "q_insert_head (head s) (move_record s) (move_count s) wnr (world s) = Inr (True, w1)"
    by auto
  from q_insert_head_ok [OF q r] obtain nd where
    q1: "is_queue w1 (head s) (nd # ps)"
    and e: "entry_record w1 nd = \<lparr>moves = take (nat (move_count s)) (move_record s), winner = wnr\<rparr>"
    and o: "\<forall>p \<in> set ps. entry_record w1 p = entry_record (world s) p"
    by blast
  from q_records_is_queue [OF q1] e o
  have "q_records w1 (head s)
          = Some (\<lparr>moves = move_log s, winner = wnr\<rparr> # map (entry_record (world s)) ps)"
    by (simp add: move_log_def)
  moreover from r mc have "record_to_queue wnr s = Inr (s\<lparr>world := w1, move_count := 0\<rparr>)"
    by (simp add: record_to_queue_def)
  ultimately show ?thesis by blast
qed

lemma game_end_sentinel:
  assumes q: "is_queue (world s) (head s) ps"
    and len: "length (move_record s) = n"
    and e: "PKG_GET_END (val p)" and mv: "move p = - 1"
    and mc: "0 < move_count s" "move_count s \<le> int n"
    and al: "allocs (world s) = True # True # r"
  shows "\<exists>s1. device_ready n (Some p) s = Inr s1
           \<and> history s1 = Some (\<lparr>moves = move_log s, winner = char_of_int (PKG_GET_AI (val p))\<rparr>
                                 # map (entry_record (world s)) ps)
           \<and> move_log s1 = [] \<and> table s1 = replicate n 0x20"
proof -
  let ?s0 = "s\<lparr>pkg_obj := p\<rparr>"
  let ?s3 = "if read_attr ?s0 then display ?s0 else ?s0"
  have q3: "is_queue (world ?s3) (head ?s3) ps" using q by (simp add: display_def)
  have mc3: "0 < move_count ?s3" "move_count ?s3 \<le> int (length (move_record ?s3))"
    using mc len by (simp_all add: display_def)
  have al3: "allocs (world ?s3) = True # True # r" using al by (simp add: display_def)
  from record_to_queue_ok [OF q3 mc3 al3, of "char_of_int (PKG_GET_AI (val p))"] obtain w1 where
    r: "record_to_queue (char_of_int (PKG_GET_AI (val p))) ?s3 = Inr (?s3\<lparr>world := w1, move_count := 0\<rparr>)"
    and h: "q_records w1 (head ?s3)
             = Some (\<lparr>moves = move_log ?s3, winner = char_of_int (PKG_GET_AI (val p))\<rparr>
                     # map (entry_record (world ?s3)) ps)"
    by blast
  have d: "device_ready n (Some p) s = Inr (?s3\<lparr>world := w1, move_count := 0, table := replicate n 0x20\<rparr>)"
    using e mv r by (simp add: device_ready_def Let_def)
  have hs: "head ?s3 = head s" "move_log ?s3 = move_log s"
    "map (entry_record (world ?s3)) ps = map (entry_record (world s)) ps"
    by (simp_all add: display_def move_log_def)
  from d h hs show ?thesis
    by (simp add: history_def move_log_def)
qed

lemma take_Suc_update: "i < length xs \<Longrightarrow> take (Suc i) (xs[i := v]) = take i xs @ [v]"
  by (simp add: take_Suc_conv_app_nth)

lemma game_end_with_move:
  assumes q: "is_queue (world s) (head s) ps"
    and len: "length (move_record s) = n" "length (table s) = n"
    and e: "PKG_GET_END (val p)" and mv: "0 \<le> move p" "move p < int n"
    and mc: "0 \<le> move_count s" "move_count s < int n"
    and al: "allocs (world s) = True # True # r"
  shows "\<exists>s1. device_ready n (Some p) s = Inr s1
           \<and> history s1 = Some (\<lparr>moves = move_log s @ [move p], winner = char_of_int (PKG_GET_AI (val p))\<rparr>
                                 # map (entry_record (world s)) ps)
           \<and> move_log s1 = [] \<and> table s1 = replicate n 0x20"
proof -
  let ?c = "char_of_int (PKG_GET_AI (val p))"
  let ?s2 = "s\<lparr>pkg_obj := p, table := (table s)[nat (move p) := ?c],
               move_record := (move_record s)[nat (move_count s) := move p],
               move_count := move_count s + 1\<rparr>"
  let ?s3 = "if read_attr ?s2 then display ?s2 else ?s2"
  from mv have ns: "move p \<noteq> - 1" by simp
  have st: "(case table_store (move p) ?c (s\<lparr>pkg_obj := p\<rparr>) of
              Inl f \<Rightarrow> Inl f | Inr s1 \<Rightarrow> record_move (move p) s1) = Inr ?s2"
    using mv mc len by (simp add: table_store_def record_move_def)
  have q3: "is_queue (world ?s3) (head ?s3) ps" using q by (simp add: display_def)
  have mc3: "0 < move_count ?s3" "move_count ?s3 \<le> int (length (move_record ?s3))"
    using mc len by (simp_all add: display_def)
  have al3: "allocs (world ?s3) = True # True # r" using al by (simp add: display_def)
  from record_to_queue_ok [OF q3 mc3 al3, of ?c] obtain w1 where
    r: "record_to_queue ?c ?s3 = Inr (?s3\<lparr>world := w1, move_count := 0\<rparr>)"
    and h: "q_records w1 (head ?s3)
             = Some (\<lparr>moves = move_log ?s3, winner = ?c\<rparr> # map (entry_record (world ?s3)) ps)"
    by blast
  have d: "device_ready n (Some p) s = Inr (?s3\<lparr>world := w1, move_count := 0, table := replicate n 0x20\<rparr>)"
    unfolding device_ready_def Let_def using e ns r st
    by (simp cong del: sum.case_cong_weak)
  from mc len have nl: "nat (move_count s) < length (move_record s)" by simp
  from mc have "nat (move_count s + 1) = Suc (nat (move_count s))" by simp
  with take_Suc_update [OF nl, of "move p"]
  have ml: "move_log ?s3 = move_log s @ [move p]"
    by (simp add: display_def move_log_def)
  have hs: "head ?s3 = head s"
    "map (entry_record (world ?s3)) ps = map (entry_record (world s)) ps"
    by (simp_all add: display_def)
  from d h hs ml show ?thesis
    by (simp add: history_def move_log_def)
qed

text \<open>
  C1, as stated, fails: after the three records of scenario A (\<open>N_GRIDS = 16\<close>, every
  allocation succeeding) the board is all blank, the end-of-game step having reset it; cell 0
  does not hold \<open>'X'\<close>.
\<close>

theorem scenario_A_board_counterexample:
  "map_option table (session 16 [True, True, True] scenario_A) = Some (replicate 16 0x20)
   \<and> replicate 16 (0x20 :: byte) ! 0 \<noteq> 0x58"
  by (simp add: scenario_A_board)

text \<open>
  C1, amended. In the device-ready step, when the decoded end flag is set, the two
  allocations succeed, and the move log is not empty (sentinel move) or the move of the record
  is recorded within bounds first, the step pushes a record made of the move log and the decoded
  mark at the front of the history queue, empties the move log and resets the board to all
  blank. In scenario A, from the initial state, the board holds \<open>'X'\<close> at cell 0 and
  \<open>'O'\<close> at cell 4 after the first two records; after the third the board is all blank and
  the history holds exactly one record, with moves \<open>[0, 4]\<close> and winner \<open>'X'\<close>.
\<close>

theorem game_end_pushes_record:
  assumes q: "is_queue (world s) (head s) ps"
    and len: "length (move_record s) = n" "length (table s) = n"
    and e: "PKG_GET_END (val p)"
    and mv: "(move p = - 1 \<and> 0 < move_count s \<and> move_count s \<le> int n)
           \<or> (0 \<le> move p \<and> move p < int n \<and> 0 \<le> move_count s \<and> move_count s < int n)"
    and al: "allocs (world s) = True # True # r"
  shows "(\<exists>s1 old. device_ready n (Some p) s = Inr s1 \<and> history s = Some old
            \<and> history s1 = Some (\<lparr>moves = (if move p = - 1 then move_log s else move_log s @ [move p]),
                                   winner = char_of_int (PKG_GET_AI (val p))\<rparr> # old)
            \<and> move_log s1 = [] \<and> table s1 = replicate n 0x20)
       \<and> map_option table (session 16 [True, True, True] (take 2 scenario_A))
           = Some [0x58, 0, 0, 0, 0x4F, 0, 0, 0, 0, 0, 0, 0, 0, 0, 0, 0]
       \<and> map_option table (session 16 [True, True, True] scenario_A) = Some (replicate 16 0x20)
       \<and> Option.bind (session 16 [True, True, True] scenario_A) history
           = Some [\<lparr>moves = [0, 4], winner = 0x58\<rparr>]"
proof -
  from q have old: "history s = Some (map (entry_record (world s)) ps)"
    by (simp add: history_def q_records_is_queue)
  from mv have "\<exists>s1. device_ready n (Some p) s = Inr s1
            \<and> history s1 = Some (\<lparr>moves = (if move p = - 1 then move_log s else move_log s @ [move p]),
                                   winner = char_of_int (PKG_GET_AI (val p))\<rparr>
                                  # map (entry_record (world s)) ps)
            \<and> move_log s1 = [] \<and> table s1 = replicate n 0x20"
  proof
    assume a: "move p = - 1 \<and> 0 < move_count s \<and> move_count s \<le> int n"
    then have m: "move p = - 1" and c: "0 < move_count s" "move_count s \<le> int n" by simp_all
    from game_end_sentinel [OF q len(1) e m c al] m show ?thesis by simp
  next
    assume a: "0 \<le> move p \<and> move p < int n \<and> 0 \<le> move_count s \<and> move_count s < int n"
    then have m: "0 \<le> move p" "move p < int n" and c: "0 \<le> move_count s" "move_count s < int n"
      by simp_all
    from m have "move p \<noteq> - 1" by simp
    with game_end_with_move [OF q len e m c al] show ?thesis by simp
  qed
  with old have "\<exists>s1 old. device_ready n (Some p) s = Inr s1 \<and> history s = Some old
            \<and> history s1 = Some (\<lparr>moves = (if move p = - 1 then move_log s else move_log s @ [move p]),
                                   winner = char_of_int (PKG_GET_AI (val p))\<rparr> # old)
            \<and> move_log s1 = [] \<and> table s1 = replicate n 0x20"
    by blast
  with scenario_A_two_moves scenario_A_board scenario_A_history show ?thesis by blast
qed

theorem game_end_pushes_record_witness:
  "\<exists>s s1. startup 16 None (boot [True, True, True]) = Some s
     \<and> is_queue (world s) (head s) [] \<and> allocs (world s) = True # True # []
     \<and> PKG_GET_END (val \<lparr>val = 0xD8, move = - 1\<rparr>)
     \<and> device_ready 16 (Some \<lparr>val = 0xD8, move = - 1\<rparr>)
          (s\<lparr>move_record := (move_record s)[0 := 0, 1 := 4], move_count := 2\<rparr>) = Inr s1
     \<and> history s1 = Some [\<lparr>moves = [0, 4], winner = 0x58\<rparr>]
     \<and> move_log s1 = [] \<and> table s1 = replicate 16 0x20"
proof -
  have a: "allocs (boot [True, True, True]) = True # [True, True]"
    by (simp add: boot_def)
  from startup_succeeds [OF a, of 16 None] obtain s where
    s: "startup 16 None (boot [True, True, True]) = Some s"
    and q: "is_queue (world s) (head s) []" and al: "allocs (world s) = True # True # []"
    and mr: "move_record s = replicate 16 0" and tb: "table s = replicate 16 0"
    by auto
  let ?s = "s\<lparr>move_record := (move_record s)[0 := 0, 1 := 4], move_count := 2\<rparr>"
  let ?p = "\<lparr>val = 0xD8, move = - 1\<rparr> :: package"
  have q': "is_queue (world ?s) (head ?s) []" using q by simp
  have len: "length (move_record ?s) = 16" "length (table ?s) = 16" using mr tb by simp_all
  have e: "PKG_GET_END (val ?p)" by (simp add: PKG_GET_END_def int_of_char_def)
  have mv: "(move ?p = - 1 \<and> 0 < move_count ?s \<and> move_count ?s \<le> int 16)
          \<or> (0 \<le> move ?p \<and> move ?p < int 16 \<and> 0 \<le> move_count ?s \<and> move_count ?s < int 16)"
    by simp
  have al': "allocs (world ?s) = True # True # []" using al by simp
  have ml: "move_log ?s = [0, 4]"
    by (simp add: move_log_def mr replicate_16 list_update_numeral)
  have w: "char_of_int (PKG_GET_AI (val ?p)) = 0x58"
    by (simp add: PKG_GET_AI_def int_of_char_def char_of_int_def)
  have h0: "history ?s = Some []" using q' by (simp add: history_def q_records_is_queue)
  from game_end_pushes_record [OF q' len e mv al'] obtain s1 old where
    "device_ready 16 (Some ?p) ?s = Inr s1" "history ?s = Some old"
    "history s1 = Some (\<lparr>moves = (if move ?p = - 1 then move_log ?s else move_log ?s @ [move ?p]),
                          winner = char_of_int (PKG_GET_AI (val ?p))\<rparr> # old)"
    "move_log s1 = []" "table s1 = replicate 16 0x20"
    by blast
  with ml w h0 s q al e show ?thesis by auto
qed

text \<open>
  C2 on the code. In scenario A with the allocation of the record node failing, the
  diagnostic of \<open>perror\<close> is the last thing printed, and the move log still holds
  \<open>[0, 4]\<close> after the end-of-game step: \<open>record_to_queue\<close> returns before
  \<open>move_count = 0\<close>. A next game with the single move 8, won by \<open>'O'\<close>, is then queued
  with the moves \<open>[0, 4, 8]\<close>.
\<close>

theorem failed_push_keeps_move_log:
  "map_option move_log (session 16 [True] scenario_A) = Some [0, 4]
   \<and> map_option (last \<circ> printed) (session 16 [True] scenario_A)
       = Some (Perror ''Failed to insert move into queue'')
   \<and> Option.bind (session 16 [True, False, True, True]
        (scenario_A @ [DevReady (Some \<lparr>val = 0x4F, move = 8\<rparr>),
                       DevReady (Some \<lparr>val = 0xCF, move = - 1\<rparr>)])) history
       = Some [\<lparr>moves = [0, 4, 8], winner = 0x4F\<rparr>]"
  using failed_push_log failed_push_perror failed_push_next_game by simp

text \<open>
  C6. For every state of the running loop: when the device is ready and the record read has
  the sentinel move index \<open>- 1\<close> and a clear end flag, the step only stores the record in
  \<open>pkg_obj\<close>. The board, the move log, the history queue and everything else in memory are
  unchanged, nothing is printed (no repaint), and the loop goes on with the next event.
\<close>

theorem heartbeat_is_noop:
  assumes "move p = - 1" "\<not> PKG_GET_END (val p)" "\<not> end_attr s"
  shows "device_ready n (Some p) s = Inr (s\<lparr>pkg_obj := p\<rparr>)
       \<and> main_loop n (DevReady (Some p) # es) s = main_loop n es (s\<lparr>pkg_obj := p\<rparr>)
       \<and> table (s\<lparr>pkg_obj := p\<rparr>) = table s
       \<and> move_log (s\<lparr>pkg_obj := p\<rparr>) = move_log s
       \<and> history (s\<lparr>pkg_obj := p\<rparr>) = history s
       \<and> world (s\<lparr>pkg_obj := p\<rparr>) = world s"
  using assms by (simp add: device_ready_def move_log_def history_def)

theorem heartbeat_is_noop_witness:
  "\<exists>s. startup 16 None (boot [True]) = Some s
     \<and> move \<lparr>val = 0, move = - 1\<rparr> = - 1 \<and> \<not> PKG_GET_END (val \<lparr>val = 0, move = - 1\<rparr>) \<and> \<not> end_attr s
     \<and> device_ready 16 (Some \<lparr>val = 0, move = - 1\<rparr>) s = Inr (s\<lparr>pkg_obj := \<lparr>val = 0, move = - 1\<rparr>\<rparr>)
     \<and> main_loop 16 [DevReady (Some \<lparr>val = 0, move = - 1\<rparr>)] s = Blocked (s\<lparr>pkg_obj := \<lparr>val = 0, move = - 1\<rparr>\<rparr>)"
proof -
  have a: "allocs (boot [True]) = True # []"
    by (simp add: boot_def)
  from startup_succeeds [OF a, of 16 None] obtain s where
    s: "startup 16 None (boot [True]) = Some s" and e: "\<not> end_attr s"
    by auto
  have m: "move \<lparr>val = 0, move = - 1\<rparr> = - 1" by simp
  have g: "\<not> PKG_GET_END (val \<lparr>val = 0, move = - 1\<rparr>)" by (simp add: PKG_GET_END_def int_of_char_def)
  from heartbeat_is_noop [OF m g e, of 16 "[]"] s m g e show ?thesis by auto
qed

text \<open>
  C8. On the keyboard input Ctrl-Q (code 17), with the attribute file holding a record of
  6 bytes (or more), the handler reads 6 bytes, sets the byte at offset 4 to \<open>'1'\<close>
  (\<open>0x31\<close>), writes the 6 bytes back, sets \<open>read_attr\<close> to false and \<open>end_attr\<close> to
  true; the loop, tested next, is left in that state whatever events are pending.
\<close>

theorem terminate_input:
  assumes f: "attr_file s = Some c" "6 \<le> length c" and b: "length buf0 = 20" and e: "\<not> end_attr s"
  shows "attr_file (listen_keyboard_handler (Some 17) buf0 s) = Some ((take 6 c)[4 := 0x31])
       \<and> \<not> read_attr (listen_keyboard_handler (Some 17) buf0 s)
       \<and> end_attr (listen_keyboard_handler (Some 17) buf0 s)
       \<and> main_loop n (KeyReady (Some 17) buf0 # es) s
           = Exited (listen_keyboard_handler (Some 17) buf0 s)"
proof -
  let ?s = "listen_keyboard_handler (Some 17) buf0 s"
  from f b have a: "attr_file ?s = Some ((take 6 c)[4 := 0x31])"
    by (simp add: listen_keyboard_handler_def Let_def say_def attr_read_def attr_write_def
        list_update_append split: nat.splits)
  have r: "\<not> read_attr ?s" "end_attr ?s"
    by (simp_all add: listen_keyboard_handler_def Let_def say_def)
  from e r have "main_loop n (KeyReady (Some 17) buf0 # es) s = Exited ?s"
    by (cases es) simp_all
  with a r show ?thesis by simp
qed

theorem terminate_input_witness:
  "\<exists>s. startup 16 (Some [0x31, 0x20, 0x30, 0x20, 0x30, 0x0A]) (boot [True]) = Some s
     \<and> attr_file s = Some [0x31, 0x20, 0x30, 0x20, 0x30, 0x0A]
     \<and> 6 \<le> length [0x31, 0x20, 0x30, 0x20, 0x30, 0x0A :: byte]
     \<and> length (replicate 20 (0 :: byte)) = 20 \<and> \<not> end_attr s
     \<and> attr_file (listen_keyboard_handler (Some 17) (replicate 20 0) s)
         = Some [0x31, 0x20, 0x30, 0x20, 0x31, 0x0A]
     \<and> \<not> read_attr (listen_keyboard_handler (Some 17) (replicate 20 0) s)
     \<and> end_attr (listen_keyboard_handler (Some 17) (replicate 20 0) s)
     \<and> main_loop 16 [KeyReady (Some 17) (replicate 20 0), DevReady None] s
         = Exited (listen_keyboard_handler (Some 17) (replicate 20 0) s)"
proof -
  let ?c = "[0x31, 0x20, 0x30, 0x20, 0x30, 0x0A] :: byte list"
  have a: "allocs (boot [True]) = True # []"
    by (simp add: boot_def)
  from startup_succeeds [OF a, of 16 "Some ?c"] obtain s where
    s: "startup 16 (Some ?c) (boot [True]) = Some s"
    and f: "attr_file s = Some ?c" and e: "\<not> end_attr s"
    by auto
  have l: "6 \<le> length ?c" by simp
  have b: "length (replicate 20 (0 :: byte)) = 20" by simp
  have u: "(take 6 ?c)[4 := 0x31] = [0x31, 0x20, 0x30, 0x20, 0x31, 0x0A]"
    by (simp add: list_update_numeral)
  from terminate_input [OF f l b e, of 16 "[DevReady None]"] u s f l b e
  show ?thesis by simp
qed

lemma q_insert_head_no_fault:
  "0 \<le> len \<Longrightarrow> len \<le> int (length mv) \<Longrightarrow> q_insert_head h mv len ai w \<noteq> Inl f"
  by (simp add: q_insert_head_def Let_def split: prod.splits)

lemma record_to_queue_no_fault:
  "0 \<le> move_count s \<Longrightarrow> move_count s \<le> int (length (move_record s)) \<Longrightarrow> record_to_queue wnr s \<noteq> Inl f"
  using q_insert_head_no_fault [of "move_count s" "move_record s" "head s" wnr "world s" f]
  by (auto simp add: record_to_queue_def split: sum.splits prod.splits)

text \<open>
  C9. The device-ready step writes \<open>table[move]\<close> and \<open>move_record[move_count++]\<close>
  with no bounds check of its own: for arrays of \<open>N_GRIDS\<close> entries and a move index other
  than the sentinel, the step stays within the arrays exactly when the move index lies in
  \<open>[0, N_GRIDS)\<close> and fewer than \<open>N_GRIDS\<close> moves are recorded; otherwise it runs
  into the out-of-bounds write.
\<close>

theorem device_step_bounds:
  assumes wf: "length (table s) = n" "length (move_record s) = n" "0 \<le> move_count s"
    and mv: "move p \<noteq> - 1"
  shows "(device_ready n (Some p) s = Inl OutOfBounds)
           = (\<not> (0 \<le> move p \<and> move p < int n \<and> move_count s < int n))"
proof (cases "0 \<le> move p \<and> move p < int n \<and> move_count s < int n")
  case False
  with wf mv show ?thesis
    by (auto simp add: device_ready_def Let_def table_store_def record_move_def)
next
  case True
  let ?c = "char_of_int (PKG_GET_AI (val p))"
  let ?s2 = "s\<lparr>pkg_obj := p, table := (table s)[nat (move p) := ?c],
               move_record := (move_record s)[nat (move_count s) := move p],
               move_count := move_count s + 1\<rparr>"
  let ?s3 = "if read_attr ?s2 then display ?s2 else ?s2"
  have st: "(case table_store (move p) ?c (s\<lparr>pkg_obj := p\<rparr>) of
              Inl f \<Rightarrow> Inl f | Inr s1 \<Rightarrow> record_move (move p) s1) = Inr ?s2"
    using True wf by (simp add: table_store_def record_move_def)
  have "record_to_queue ?c ?s3 \<noteq> Inl f" for f
    by (rule record_to_queue_no_fault) (use True wf in \<open>simp_all add: display_def\<close>)
  then obtain s4 where r: "record_to_queue ?c ?s3 = Inr s4"
    by (cases "record_to_queue ?c ?s3") auto
  have "device_ready n (Some p) s
          = (if PKG_GET_END (val p) then Inr (s4\<lparr>table := replicate n 0x20\<rparr>) else Inr ?s3)"
    unfolding device_ready_def Let_def using mv st r
    by (simp cong del: sum.case_cong_weak)
  then have "device_ready n (Some p) s \<noteq> Inl OutOfBounds"
    by simp
  with True show ?thesis by simp
qed

theorem device_step_bounds_witness:
  "\<exists>s. startup 16 None (boot [True]) = Some s
     \<and> length (table s) = 16 \<and> length (move_record s) = 16 \<and> 0 \<le> move_count s
     \<and> move \<lparr>val = 0x58, move = 16\<rparr> \<noteq> - 1
     \<and> device_ready 16 (Some \<lparr>val = 0x58, move = 16\<rparr>) s = Inl OutOfBounds
     \<and> (\<exists>s1. device_ready 16 (Some \<lparr>val = 0x58, move = 15\<rparr>) s = Inr s1)"
proof -
  have a: "allocs (boot [True]) = True # []"
    by (simp add: boot_def)
  from startup_succeeds [OF a, of 16 None] obtain s where
    s: "startup 16 None (boot [True]) = Some s"
    and mc: "move_count s = 0"
    and mr: "move_record s = replicate 16 0" and tb: "table s = replicate 16 0"
    by auto
  have wf: "length (table s) = 16" "length (move_record s) = 16" "0 \<le> move_count s"
    using mc mr tb by simp_all
  have m1: "move \<lparr>val = 0x58, move = 16\<rparr> \<noteq> - 1" by simp
  have m2: "move \<lparr>val = 0x58, move = 15\<rparr> \<noteq> - 1" by simp
  from device_step_bounds [OF wf m1] have o: "device_ready 16 (Some \<lparr>val = 0x58, move = 16\<rparr>) s = Inl OutOfBounds"
    by simp
  from device_step_bounds [OF wf m2] mc
  have ok: "device_ready 16 (Some \<lparr>val = 0x58, move = 15\<rparr>) s \<noteq> Inl OutOfBounds"
    by simp
  have i: "\<exists>s1. device_ready 16 (Some \<lparr>val = 0x58, move = 15\<rparr>) s = Inr s1"
  proof (cases "device_ready 16 (Some \<lparr>val = 0x58, move = 15\<rparr>) s")
    case (Inl f)
    with ok show ?thesis by (cases f) simp
  next
    case (Inr s1)
    then show ?thesis by blast
  qed
  from s wf m1 o i show ?thesis by blast
qed

end
